theory Spec2Isabelle
  imports Main
begin

section \<open>Strings and paths\<close>

text \<open>
  Python strings are modelled as \<open>string\<close> (lists of 8-bit characters), so file names and
  product codes are taken to be ASCII. \<open>str.lower\<close> is modelled on the ASCII letters and
  leaves every other character as it is; the keywords, prefixes and extensions that the
  program compares with are all ASCII.
\<close>

definition lower_char :: "char \<Rightarrow> char" where
  "lower_char c =
     (case map_of (zip ''ABCDEFGHIJKLMNOPQRSTUVWXYZ'' ''abcdefghijklmnopqrstuvwxyz'') c of
        Some d \<Rightarrow> d
      | None \<Rightarrow> c)"

definition lower :: "string \<Rightarrow> string" where
  "lower s = map lower_char s"

text \<open>\<open>s.startswith(p)\<close>, \<open>s.endswith(p)\<close> and \<open>sub in s\<close>.\<close>

fun startswith :: "string \<Rightarrow> string \<Rightarrow> bool" where
  "startswith s [] = True"
| "startswith [] (p # ps) = False"
| "startswith (c # cs) (p # ps) = (c = p \<and> startswith cs ps)"

definition endswith :: "string \<Rightarrow> string \<Rightarrow> bool" where
  "endswith s p = startswith (rev s) (rev p)"

fun str_in :: "string \<Rightarrow> string \<Rightarrow> bool" where
  "str_in sub [] = (sub = [])"
| "str_in sub (c # cs) = (startswith (c # cs) sub \<or> str_in sub cs)"

text \<open>\<open>s.split(sep)\<close> for a one-character separator, and \<open>s.rfind(c)\<close> as an option.\<close>

fun split_on :: "char \<Rightarrow> string \<Rightarrow> string list" where
  "split_on sep [] = [[]]"
| "split_on sep (c # cs) =
     (if c = sep then [] # split_on sep cs
      else (case split_on sep cs of
              [] \<Rightarrow> [[c]]
            | w # ws \<Rightarrow> (c # w) # ws))"

fun rfind :: "char \<Rightarrow> string \<Rightarrow> nat option" where
  "rfind ch [] = None"
| "rfind ch (c # cs) =
     (case rfind ch cs of
        Some i \<Rightarrow> Some (Suc i)
      | None \<Rightarrow> (if c = ch then Some 0 else None))"

text \<open>
  \<open>pathlib.PurePosixPath(p).name\<close>: the path is split at \<open>/\<close>, empty components and
  \<open>.\<close> components are dropped, and the last remaining component is the name (the empty
  string when none remains).
\<close>

definition path_parts :: "string \<Rightarrow> string list" where
  "path_parts p = filter (\<lambda>w. w \<noteq> [] \<and> w \<noteq> ''.'') (split_on (CHR ''/'') p)"

definition path_name :: "string \<Rightarrow> string" where
  "path_name p = (case rev (path_parts p) of [] \<Rightarrow> [] | w # _ \<Rightarrow> w)"

text \<open>
  \<open>Path(p).suffix\<close>: with \<open>i = name.rfind('.')\<close>, the suffix is \<open>name[i:]\<close> when
  \<open>0 < i < len(name) - 1\<close> and the empty string otherwise.
\<close>

definition path_suffix :: "string \<Rightarrow> string" where
  "path_suffix p =
     (let name = path_name p in
      case rfind (CHR ''.'') name of
        None \<Rightarrow> []
      | Some i \<Rightarrow> (if 0 < i \<and> Suc i < length name then drop i name else []))"

text \<open>\<open>Path(p).stem\<close>: the name without its suffix.\<close>

definition path_stem :: "string \<Rightarrow> string" where
  "path_stem p = (let name = path_name p in take (length name - length (path_suffix p)) name)"

section \<open>Files\<close>

text \<open>
  A file is modelled by what the program observes of it: its size in bytes
  (\<open>stat().st_size\<close>), the result of reading its first four bytes (\<open>None\<close> when opening or
  reading raises), and its members when it is opened as a zip archive (\<open>None\<close> when
  \<open>zipfile\<close> raises \<open>BadZipFile\<close>). A member is a name and the member's data, itself a file.
\<close>

datatype fileobj = File (st_size: nat) (read4: "string option") (members: "(string \<times> fileobj) list option")

definition PDF_MAGIC :: string where
  "PDF_MAGIC = ''%PDF''"

definition is_pdf :: "fileobj \<Rightarrow> bool" where
  "is_pdf f = (case read4 f of Some head \<Rightarrow> head = PDF_MAGIC | None \<Rightarrow> False)"

text \<open>
  A directory listing \<open>[p for p in d.glob("*") if p.is_file()]\<close> is an association list from
  names to files with distinct names. Writing to a path replaces the file of that name or
  adds it; \<open>unlink(missing_ok=True)\<close> removes it.
\<close>

type_synonym listing = "(string \<times> fileobj) list"

fun write_file :: "string \<Rightarrow> fileobj \<Rightarrow> listing \<Rightarrow> listing" where
  "write_file n f [] = [(n, f)]"
| "write_file n f ((m, g) # rest) =
     (if m = n then (n, f) # rest else (m, g) # write_file n f rest)"

definition unlink :: "string \<Rightarrow> listing \<Rightarrow> listing" where
  "unlink n fs = filter (\<lambda>e. fst e \<noteq> n) fs"

section \<open>Classification and promotion (ccs_crawler.py)\<close>

record ProductContext =
  code :: string
  series_name :: string
  series_url :: string
  product_url :: string

type_synonym suffix_entry = "string \<times> string \<times> string"

definition DOWNLOAD_KEYWORDS :: "suffix_entry list" where
  "DOWNLOAD_KEYWORDS =
     [(''manual'', ''_Manual'', ''.pdf''),
      (''catalog'', ''_Catalog'', ''.pdf''),
      (''dimension'', ''_Dimension'', ''.pdf''),
      (''dimension drawing'', ''_Dimension'', ''.pdf''),
      (''dxf'', ''_DXF'', ''.zip''),
      (''step'', ''_STEP'', ''.zip''),
      (''datasheet'', ''_Datasheet'', ''.pdf''),
      (''data sheet'', ''_Datasheet'', ''.pdf'')]"

definition looks_like_dimension :: "string \<Rightarrow> ProductContext \<Rightarrow> bool" where
  "looks_like_dimension name_lower context =
     (let stem = hd (split_on (CHR ''.'') name_lower) in
      if str_in ''dimension'' stem \<or> str_in ''drawing'' stem then True
      else if endswith stem ''_e'' \<and> startswith stem (lower (code context)) then True
      else False)"

text \<open>
  The category selection of \<open>distribute_file\<close>: the value of \<open>suffix_entry\<close> when the
  selection is over, \<open>None\<close> when no rule applies. The argument is \<open>file_path.name\<close>.
\<close>

definition select_entry :: "string \<Rightarrow> ProductContext \<Rightarrow> suffix_entry option" where
  "select_entry fname context =
     (let name_lower = lower fname in
      case find (\<lambda>entry. str_in (fst entry) name_lower) DOWNLOAD_KEYWORDS of
        Some entry \<Rightarrow> Some entry
      | None \<Rightarrow>
          if startswith name_lower ''c_'' then Some (''catalog'', ''_Catalog'', ''.pdf'')
          else if startswith name_lower ''d_'' then Some (''dimension'', ''_Dimension'', ''.pdf'')
          else if startswith name_lower ''m_'' \<and> \<not> str_in ''datasheet'' name_lower
            then Some (''manual'', ''_Manual'', ''.pdf'')
          else if str_in ''datasheet'' name_lower \<or> str_in ''data-sheet'' name_lower
            then Some (''datasheet'', ''_Datasheet'', ''.pdf'')
          else if looks_like_dimension name_lower context
            then Some (''dimension'', ''_Dimension'', ''.pdf'')
          else if str_in (lower (code context)) name_lower \<and> lower (path_suffix fname) = ''.pdf''
            then Some (''datasheet'', ''_Datasheet'', ''.pdf'')
          else if lower (path_suffix fname) \<in> {''.stp'', ''.step''}
            then Some (''step'', ''_STEP'', ''.zip'')
          else None)"

text \<open>
  A written zip archive: its members are the entries written, and its first bytes are the
  local file header signature. The byte size of a written archive depends on the
  compression, which is not modelled: it is the parameter \<open>zsize\<close>, a function of the
  members written.

  \<open>shutil.make_archive(base, "zip", tmp)\<close> over a directory holding one copied file gives an
  archive whose only member is that file under its own name.
\<close>

definition ZIP_MAGIC :: string where
  "ZIP_MAGIC = [CHR ''P'', CHR ''K'', CHR 0x03, CHR 0x04]"

definition write_zip :: "(listing \<Rightarrow> nat) \<Rightarrow> listing \<Rightarrow> fileobj" where
  "write_zip zsize ms = File (zsize ms) (Some ZIP_MAGIC) (Some ms)"

definition make_archive :: "(listing \<Rightarrow> nat) \<Rightarrow> string \<Rightarrow> fileobj \<Rightarrow> fileobj" where
  "make_archive zsize fname f = write_zip zsize [(fname, f)]"

text \<open>
  \<open>distribute_file(file_path, context, dest_dir)\<close>: \<open>fname\<close> is \<open>file_path.name\<close>, \<open>f\<close> the file
  at \<open>file_path\<close>, and the listing is that of the regular files of \<open>dest_dir\<close>.
\<close>

definition distribute_file ::
  "(listing \<Rightarrow> nat) \<Rightarrow> string \<Rightarrow> fileobj \<Rightarrow> ProductContext \<Rightarrow> listing \<Rightarrow> listing" where
  "distribute_file zsize fname f context dest =
     (case select_entry fname context of
        None \<Rightarrow> dest
      | Some (kw, suffix, target_ext) \<Rightarrow>
          if target_ext = ''.pdf'' \<and> \<not> is_pdf f then dest
          else if target_ext = ''.zip'' then
            (if lower (path_suffix fname) \<in> {''.zip'', ''.gz'', ''.rar''}
             then write_file (code context @ suffix @ ''.zip'') f dest
             else write_file (code context @ suffix @ ''.zip'')
                    (make_archive zsize fname f) dest)
          else write_file (code context @ suffix @ target_ext) f dest)"

text \<open>
  \<open>process_zip\<close>: \<open>shutil.unpack_archive\<close> raises when the file is not a zip archive (the
  result \<open>None\<close>); it skips members whose name starts with \<open>/\<close> or contains \<open>..\<close>, and
  members whose name ends in \<open>/\<close> are directories. Every extracted regular file is then
  distributed under its own name (\<open>file_path.name\<close>), here in the order of the archive.
\<close>

definition extracted_files :: "listing \<Rightarrow> listing" where
  "extracted_files ms =
     map (\<lambda>(n, d). (path_name n, d))
       (filter (\<lambda>(n, d). \<not> startswith n ''/'' \<and> \<not> str_in ''..'' n \<and> \<not> endswith n ''/'') ms)"

definition process_zip ::
  "(listing \<Rightarrow> nat) \<Rightarrow> fileobj \<Rightarrow> ProductContext \<Rightarrow> listing \<Rightarrow> listing option" where
  "process_zip zsize zip_file context dest =
     (case members zip_file of
        None \<Rightarrow> None
      | Some ms \<Rightarrow>
          Some (fold (\<lambda>(n, d) acc. distribute_file zsize n d context acc) (extracted_files ms) dest))"

text \<open>
  \<open>transform_downloads\<close>: the loop over the downloads; the result is the listing reached and
  whether the loop ended normally (\<open>False\<close> when \<open>process_zip\<close> raised).
\<close>

fun transform_downloads ::
  "(listing \<Rightarrow> nat) \<Rightarrow> ProductContext \<Rightarrow> listing \<Rightarrow> listing \<Rightarrow> listing \<times> bool" where
  "transform_downloads zsize context dest [] = (dest, True)"
| "transform_downloads zsize context dest ((n, f) # downloads) =
     (if lower (path_suffix n) = ''.zip'' then
        (case process_zip zsize f context dest of
           None \<Rightarrow> (dest, False)
         | Some dest' \<Rightarrow> transform_downloads zsize context dest' downloads)
      else transform_downloads zsize context (distribute_file zsize n f context dest) downloads)"

section \<open>Product directories and the completeness check (ccs_crawler.py)\<close>

text \<open>
  A product directory \<open>dest_dir\<close>: its name, the listing of its regular files, and its
  \<open>Images\<close> entry, which is absent, something that is not a directory, or a directory of
  entries that are regular files or not.
\<close>

datatype dirent = RegularFile fileobj | Subdirectory

datatype images_node = Absent | NotADirectory | ImagesDir "(string \<times> dirent) list"

record product_dir =
  dir_name :: string
  files :: listing
  images :: images_node

definition required :: "string list" where
  "required = [''_Catalog.pdf'', ''_Dimension.pdf'', ''_DXF.zip'', ''_STEP.zip'', ''_Manual.pdf'']"

text \<open>
  The loop \<open>for suffix in required\<close> of \<open>_required_files_present\<close>: \<open>False\<close> when the loop
  returns \<open>False\<close>, \<open>True\<close> when it runs to its end. \<open>names\<close> is a Python set; the order of
  the listing stands for its iteration order, so that \<open>matching_files[0]\<close> is the first
  entry of the listing whose name ends in the suffix.
\<close>

fun check_required :: "string \<Rightarrow> listing \<Rightarrow> string list \<Rightarrow> bool" where
  "check_required product_code fs [] = True"
| "check_required product_code fs (suffix # rest) =
     (case filter (\<lambda>(name, f). endswith name suffix) fs of
        [] \<Rightarrow>
          (if suffix = ''_Manual.pdf'' \<or> suffix = ''_STEP.zip''
           then check_required product_code fs rest
           else False)
      | (name, f) # _ \<Rightarrow>
          (if st_size f < 1000 then False
           else if endswith suffix ''.pdf'' \<and> \<not> is_pdf f then False
           else if \<not> str_in product_code name then False
           else check_required product_code fs rest))"

definition image_present :: "images_node \<Rightarrow> bool" where
  "image_present node =
     (case node of
        Absent \<Rightarrow> False
      | NotADirectory \<Rightarrow> False
      | ImagesDir entries \<Rightarrow>
          list_ex (\<lambda>(n, e). case e of RegularFile f \<Rightarrow> st_size f > 1000 | Subdirectory \<Rightarrow> False)
            entries)"

definition required_files_present :: "product_dir \<Rightarrow> bool" where
  "required_files_present dest_dir =
     (if \<not> check_required (dir_name dest_dir) (files dest_dir) required then False
      else if \<not> image_present (images dest_dir) then False
      else True)"

section \<open>The acquisition loop (ccs_crawler.py)\<close>

text \<open>
  The world of \<open>process_product\<close>: the product's output directory (\<open>None\<close> when it does not
  exist) and the trace of the requests made to the browser driver. What the external site
  answers in one attempt is an \<open>attempt_env\<close>: whether the product row is found at the first
  and at the second lookup, the image fetched (its extension and content; \<open>None\<close> when the
  suppressed download fails or finds nothing), the manual fetched, and the files returned
  by \<open>collect_required_documents\<close> (\<open>None\<close> when it raises).
\<close>

datatype event =
    DriverGet string
  | ClearDownloadCart
  | FindProductRow string
  | DownloadProductImage
  | DownloadProductManual
  | ClearDownloadDir
  | CollectRequiredDocuments

record world =
  product :: "product_dir option"
  trace :: "event list"

record attempt_env =
  row_first :: bool
  image :: "(string \<times> fileobj) option"
  manual :: "fileobj option"
  row_second :: bool
  downloads :: "listing option"

datatype result = Return bool | Raise

datatype loop_exit = LoopReturn bool | LoopRaise | LoopEnd

text \<open>\<open>ensure_dir(dest_dir / "Images")\<close>: \<open>mkdir(exist_ok=True)\<close> raises on a non-directory.\<close>

definition ensure_images :: "images_node \<Rightarrow> images_node option" where
  "ensure_images node =
     (case node of
        Absent \<Rightarrow> Some (ImagesDir [])
      | NotADirectory \<Rightarrow> None
      | ImagesDir entries \<Rightarrow> Some (ImagesDir entries))"

fun write_entry :: "string \<Rightarrow> fileobj \<Rightarrow> (string \<times> dirent) list \<Rightarrow> (string \<times> dirent) list" where
  "write_entry n f [] = [(n, RegularFile f)]"
| "write_entry n f ((m, e) # rest) =
     (if m = n then (case e of RegularFile g \<Rightarrow> (n, RegularFile f) # rest
                            | Subdirectory \<Rightarrow> (m, e) # rest)
      else (m, e) # write_entry n f rest)"

text \<open>
  \<open>download_product_image\<close> under \<open>contextlib.suppress(Exception)\<close>: the image is written to
  \<open>Images/<code><ext>\<close>; a failure leaves the directory as it is.
\<close>

definition download_product_image ::
  "ProductContext \<Rightarrow> (string \<times> fileobj) option \<Rightarrow> product_dir \<Rightarrow> product_dir" where
  "download_product_image context img dest_dir =
     (case img of
        None \<Rightarrow> dest_dir
      | Some (image_ext, f) \<Rightarrow>
          (case images dest_dir of
             ImagesDir entries \<Rightarrow>
               dest_dir\<lparr>images := ImagesDir (write_entry (code context @ image_ext) f entries)\<rparr>
           | Absent \<Rightarrow> dest_dir
           | NotADirectory \<Rightarrow> dest_dir))"

definition download_product_manual ::
  "bool \<Rightarrow> ProductContext \<Rightarrow> fileobj option \<Rightarrow> product_dir \<Rightarrow> product_dir" where
  "download_product_manual overwrite context man dest_dir =
     (let manual_path = code context @ ''_Manual.pdf'' in
      if manual_path \<in> set (map fst (files dest_dir)) \<and> \<not> overwrite then dest_dir
      else (case man of
              None \<Rightarrow> dest_dir
            | Some f \<Rightarrow> dest_dir\<lparr>files := write_file manual_path f (files dest_dir)\<rparr>))"

text \<open>
  The loop \<open>for attempt in range(2)\<close>: the attempts still to run, the directory and the
  trace so far. \<open>cleanup_dest_dir\<close> removes the directory (\<open>None\<close>).
\<close>

fun attempts ::
  "bool \<Rightarrow> (listing \<Rightarrow> nat) \<Rightarrow> ProductContext \<Rightarrow> (nat \<Rightarrow> attempt_env) \<Rightarrow> nat list \<Rightarrow>
     product_dir \<Rightarrow> event list \<Rightarrow> loop_exit \<times> world" where
  "attempts overwrite zsize context env [] dest_dir tr =
     (LoopEnd, \<lparr>product = Some dest_dir, trace = tr\<rparr>)"
| "attempts overwrite zsize context env (attempt # rest) dest_dir tr =
     (let tr1 = tr @ [DriverGet (series_url context), ClearDownloadCart,
                      DriverGet (series_url context), FindProductRow (code context)] in
      if \<not> row_first (env attempt) then
        (LoopReturn False, \<lparr>product = None, trace = tr1\<rparr>)
      else
        let d1 = download_product_image context (image (env attempt)) dest_dir;
            d2 = download_product_manual overwrite context (manual (env attempt)) d1;
            tr2 = tr1 @ [DownloadProductImage, DownloadProductManual,
                         DriverGet (series_url context), FindProductRow (code context)] in
        if \<not> row_second (env attempt) then
          (LoopReturn False, \<lparr>product = None, trace = tr2\<rparr>)
        else
          let tr3 = tr2 @ [ClearDownloadDir, CollectRequiredDocuments] in
          (case downloads (env attempt) of
             None \<Rightarrow> (LoopRaise, \<lparr>product = Some d2, trace = tr3\<rparr>)
           | Some ds \<Rightarrow>
               (case transform_downloads zsize context (files d2) ds of
                  (fs, False) \<Rightarrow> (LoopRaise, \<lparr>product = Some (d2\<lparr>files := fs\<rparr>), trace = tr3\<rparr>)
                | (fs, True) \<Rightarrow>
                    let d3 = d2\<lparr>files := fs\<rparr> in
                    if required_files_present d3
                    then (LoopEnd, \<lparr>product = Some d3, trace = tr3\<rparr>)
                    else attempts overwrite zsize context env rest d3 tr3)))"

text \<open>
  \<open>process_product\<close>. After the loop the marker \<open>.complete\<close> is written when the required
  files are present, and the function returns \<open>True\<close> either way; the two statements after
  that \<open>return True\<close> are never reached.
\<close>

definition complete_marker :: fileobj where
  "complete_marker = File 2 (Some ''ok'') None"

definition process_product ::
  "bool \<Rightarrow> (listing \<Rightarrow> nat) \<Rightarrow> ProductContext \<Rightarrow> (nat \<Rightarrow> attempt_env) \<Rightarrow> world \<Rightarrow>
     result \<times> world" where
  "process_product overwrite zsize context env w =
     (if product w \<noteq> None \<and> \<not> overwrite then (Return False, w)
      else
        let d0 = (case product w of
                    None \<Rightarrow> \<lparr>dir_name = code context, files = [], images = Absent\<rparr>
                  | Some d \<Rightarrow> d) in
        (case ensure_images (images d0) of
           None \<Rightarrow> (Raise, w\<lparr>product := Some d0\<rparr>)
         | Some node \<Rightarrow>
             (case attempts overwrite zsize context env [0, 1] (d0\<lparr>images := node\<rparr>) (trace w) of
                (LoopReturn b, w') \<Rightarrow> (Return b, w')
              | (LoopRaise, w') \<Rightarrow> (Raise, w')
              | (LoopEnd, w') \<Rightarrow>
                  (case product w' of
                     None \<Rightarrow> (Return True, w')
                   | Some d \<Rightarrow>
                       if required_files_present d
                       then (Return True,
                             w'\<lparr>product := Some (d\<lparr>files := write_file ''.complete'' complete_marker (files d)\<rparr>)\<rparr>)
                       else (Return True, w')))))"

section \<open>The post-hoc auditor (validate_outputs.py)\<close>

definition IMAGE_EXTS :: "string list" where
  "IMAGE_EXTS = [''.jpg'', ''.jpeg'', ''.png'', ''.gif'', ''.webp'']"

definition REQUIRED :: "(string \<times> bool) list" where
  "REQUIRED =
     [(''_Catalog.pdf'', True), (''_Dimension.pdf'', True), (''_DXF.zip'', True),
      (''_STEP.zip'', True), (''_Manual.pdf'', False), (''_Datasheet.pdf'', False)]"

definition OPTIONAL :: "(string \<times> bool) list" where
  "OPTIONAL = [(''_Manual.pdf'', False), (''_STEP.zip'', False), (''_Datasheet.pdf'', False)]"

text \<open>
  \<open>collect_by_suffix\<close>: a path is modelled by its name; the dictionary \<open>buckets\<close> is an
  association list in insertion order, and \<open>buckets.setdefault(suffix, []).append(p)\<close>
  appends to the bucket of the suffix, adding the bucket at the end when it is new.
\<close>

type_synonym buckets = "(string \<times> string list) list"

fun setdefault_append :: "string \<Rightarrow> string \<Rightarrow> buckets \<Rightarrow> buckets" where
  "setdefault_append suffix p [] = [(suffix, [p])]"
| "setdefault_append suffix p ((s, ps) # rest) =
     (if s = suffix then (s, ps @ [p]) # rest else (s, ps) # setdefault_append suffix p rest)"

definition collect_by_suffix :: "string list \<Rightarrow> buckets" where
  "collect_by_suffix fnames =
     foldl (\<lambda>buckets p.
              case find (\<lambda>suffix. endswith p suffix) (map fst REQUIRED @ map fst OPTIONAL) of
                None \<Rightarrow> buckets
              | Some suffix \<Rightarrow> setdefault_append suffix p buckets)
       [] fnames"

text \<open>
  The key of \<open>max\<close> in \<open>remove_duplicates\<close>: \<open>p.stat().st_size if p.exists() else -1\<close>.
  Python's \<open>max\<close> returns the first of the items whose key is largest.
\<close>

definition size_key :: "listing \<Rightarrow> string \<Rightarrow> int" where
  "size_key fs p = (case map_of fs p of Some f \<Rightarrow> int (st_size f) | None \<Rightarrow> - 1)"

fun py_max :: "('a \<Rightarrow> int) \<Rightarrow> 'a \<Rightarrow> 'a list \<Rightarrow> 'a" where
  "py_max key best [] = best"
| "py_max key best (x # xs) = (if key best < key x then py_max key x xs else py_max key best xs)"

text \<open>
  \<open>remove_duplicates\<close> over the buckets and the directory listing: the list \<open>removed\<close> and
  the listing after the deletions. Each deletion is \<open>p.unlink(missing_ok=True)\<close> inside
  \<open>try\<close> / \<open>except Exception: pass\<close>: a deletion that raises is ignored, the file stays, and
  the path is listed in \<open>removed\<close> all the same. \<open>undeletable\<close> holds the names whose
  deletion raises.
\<close>

definition try_unlink :: "string list \<Rightarrow> string \<Rightarrow> listing \<Rightarrow> listing" where
  "try_unlink undeletable p fs = (if p \<in> set undeletable then fs else unlink p fs)"

fun remove_duplicates ::
  "string list \<Rightarrow> buckets \<Rightarrow> listing \<Rightarrow> (string \<times> string list) list \<times> listing" where
  "remove_duplicates undeletable [] fs = ([], fs)"
| "remove_duplicates undeletable ((suffix, paths) # rest) fs =
     (case paths of
        [] \<Rightarrow> remove_duplicates undeletable rest fs
      | [p] \<Rightarrow> remove_duplicates undeletable rest fs
      | p # q # ps \<Rightarrow>
          (let keep = py_max (size_key fs) p (q # ps);
               to_remove = filter (\<lambda>x. x \<noteq> keep) paths;
               fs' = fold (try_unlink undeletable) to_remove fs;
               (removed, fs'') = remove_duplicates undeletable rest fs'
           in ((suffix, to_remove) # removed, fs'')))"









text \<open>The value of \<open>images_ok\<close> at the end of \<open>validate_product_dir\<close>.\<close>

definition images_ok :: "images_node \<Rightarrow> bool" where
  "images_ok node =
     (case node of
        Absent \<Rightarrow> False
      | NotADirectory \<Rightarrow> False
      | ImagesDir entries \<Rightarrow>
          list_ex (\<lambda>(n, e). case e of
                     RegularFile f \<Rightarrow> lower (path_suffix n) \<in> set IMAGE_EXTS \<and> st_size f > 0
                   | Subdirectory \<Rightarrow> False)
            entries)"

section \<open>The specification's wording\<close>

text \<open>
  The classifier as the specification words it: the six canonical categories, each with
  its suffix token and container format, and an ordered list of rules of which the first
  that applies wins. The list is given for a stem of the name: the specification's stem is
  the lower-cased name before its extension (\<open>spec_classify\<close>); \<open>first_dot_classify\<close> is
  the same list with the stem taken as the lower-cased name before its first dot. The
  extension is the lower-cased suffix of the name, and the product code is compared in
  lower case.
\<close>

datatype CanonicalCategory = Catalog | Dimension | Datasheet | Manual | DXF | STEP

fun canonical_slot :: "CanonicalCategory \<Rightarrow> string \<times> string" where
  "canonical_slot Catalog = (''_Catalog'', ''.pdf'')"
| "canonical_slot Dimension = (''_Dimension'', ''.pdf'')"
| "canonical_slot Datasheet = (''_Datasheet'', ''.pdf'')"
| "canonical_slot Manual = (''_Manual'', ''.pdf'')"
| "canonical_slot DXF = (''_DXF'', ''.zip'')"
| "canonical_slot STEP = (''_STEP'', ''.zip'')"

fun first_match :: "(bool \<times> 'a) list \<Rightarrow> 'a option" where
  "first_match [] = None"
| "first_match ((b, x) # rules) = (if b then Some x else first_match rules)"

definition classify_rules ::
  "string \<Rightarrow> string \<Rightarrow> ProductContext \<Rightarrow> (bool \<times> CanonicalCategory) list" where
  "classify_rules stem fname context =
     (let n = lower fname; ext = lower (path_suffix fname) in
      [(str_in ''manual'' n, Manual),
       (str_in ''catalog'' n, Catalog),
       (str_in ''dimension'' n, Dimension),
       (str_in ''dimension drawing'' n, Dimension),
       (str_in ''dxf'' n, DXF),
       (str_in ''step'' n, STEP),
       (str_in ''datasheet'' n, Datasheet),
       (str_in ''data sheet'' n, Datasheet),
       (startswith n ''c_'', Catalog),
       (startswith n ''d_'', Dimension),
       (startswith n ''m_'' \<and> \<not> str_in ''datasheet'' n, Manual),
       (str_in ''datasheet'' n \<or> str_in ''data-sheet'' n, Datasheet),
       (str_in ''dimension'' stem \<or> str_in ''drawing'' stem
          \<or> (endswith stem ''_e'' \<and> startswith stem (lower (code context))), Dimension),
       (str_in (lower (code context)) n \<and> ext = ''.pdf'', Datasheet),
       (ext = ''.stp'' \<or> ext = ''.step'', STEP)])"

definition spec_classify :: "string \<Rightarrow> ProductContext \<Rightarrow> CanonicalCategory option" where
  "spec_classify fname context =
     first_match (classify_rules (path_stem (lower fname)) fname context)"

definition first_dot_classify :: "string \<Rightarrow> ProductContext \<Rightarrow> CanonicalCategory option" where
  "first_dot_classify fname context =
     first_match (classify_rules (hd (split_on (CHR ''.'') (lower fname))) fname context)"


text \<open>
  The completeness rule as the specification words it: for a required category, some file
  of the directory matches the suffix, has at least 1000 bytes, passes the format check of
  the category (the PDF signature, or a non-empty archive) and carries the product code in
  its name.
\<close>

definition spec_format_ok :: "string \<Rightarrow> fileobj \<Rightarrow> bool" where
  "spec_format_ok suffix f =
     (if endswith suffix ''.pdf'' then read4 f = Some ''%PDF''
      else (case members f of None \<Rightarrow> False | Some ms \<Rightarrow> ms \<noteq> []))"

definition spec_category_ok :: "string \<Rightarrow> listing \<Rightarrow> string \<Rightarrow> bool" where
  "spec_category_ok product_code fs suffix =
     list_ex (\<lambda>(name, f). endswith name suffix \<and> 1000 \<le> st_size f \<and> spec_format_ok suffix f
                \<and> str_in product_code name) fs"

definition spec_complete :: "product_dir \<Rightarrow> bool" where
  "spec_complete d =
     (spec_category_ok (dir_name d) (files d) ''_Catalog.pdf'' \<and>
      spec_category_ok (dir_name d) (files d) ''_Dimension.pdf'' \<and>
      spec_category_ok (dir_name d) (files d) ''_DXF.zip'' \<and>
      image_present (images d))"


section \<open>Example inputs\<close>

definition XYZ :: ProductContext where
  "XYZ = \<lparr>code = ''XYZ'', series_name = ''Series'',
           series_url = ''https://www.ccs-grp.com/products/series/1'',
           product_url = ''https://www.ccs-grp.com/products/1''\<rparr>"

definition const_zsize :: "listing \<Rightarrow> nat" where
  "const_zsize ms = 1024"

definition pdf_file :: "nat \<Rightarrow> fileobj" where
  "pdf_file n = File n (Some ''%PDF'') None"

definition png_file :: "nat \<Rightarrow> fileobj" where
  "png_file n = File n (Some [CHR 0x89, CHR ''P'', CHR ''N'', CHR ''G'']) None"

text \<open>
  An attempt in which the site delivers the catalog only, and a directory that passes the
  completeness check although its DXF file is an HTML page saved under a zip name.
\<close>

definition catalog_only_env :: attempt_env where
  "catalog_only_env =
     \<lparr>row_first = True, image = None, manual = None, row_second = True,
      downloads = Some [(''catalog.pdf'', pdf_file 2048)]\<rparr>"

definition html_dxf_dir :: product_dir where
  "html_dxf_dir =
     \<lparr>dir_name = ''XYZ'',
      files = [(''XYZ_Catalog.pdf'', pdf_file 2048), (''XYZ_Dimension.pdf'', pdf_file 1536),
               (''XYZ_DXF.zip'', File 4096 (Some ''<htm'') None)],
      images = ImagesDir [(''XYZ.png'', RegularFile (png_file 5000))]\<rparr>"











definition duplicate_listing :: listing where
  "duplicate_listing =
     [(''X_Catalog.pdf'', pdf_file 500), (''X_Dimension.pdf'', pdf_file 1500),
      (''old_X_Catalog.pdf'', pdf_file 3000)]"

section \<open>Properties of the classification\<close>

lemma select_entry_refines:
  "map_option snd (select_entry fname context)
     = map_option canonical_slot (first_dot_classify fname context)"
  by (auto simp add: select_entry_def first_dot_classify_def classify_rules_def
      DOWNLOAD_KEYWORDS_def looks_like_dimension_def Let_def)

lemma distribute_unclassified:
  "select_entry fname context = None \<Longrightarrow> distribute_file zsize fname f context dest = dest"
  by (simp add: distribute_file_def)

text \<open>
  C3. As stated the claim fails on names with more than one dot. The code takes the stem of
  rule (4) as the text before the first dot of the name, not as the name before its
  extension: \<open>plan.drawing.pdf\<close> has the stem \<open>plan.drawing\<close>, which contains \<open>drawing\<close>,
  and is classified by nothing; \<open>XYZ.rev2_e.pdf\<close> has the stem \<open>XYZ.rev2_e\<close>, which ends
  in \<open>_e\<close> and starts with the product code, and is classified as Datasheet by rule (5).
\<close>

theorem classification_stem_counterexample:
  "path_stem (lower ''plan.drawing.pdf'') = ''plan.drawing'' \<and>
   spec_classify ''plan.drawing.pdf'' XYZ = Some Dimension \<and>
   select_entry ''plan.drawing.pdf'' XYZ = None \<and>
   path_stem (lower ''XYZ.rev2_e.pdf'') = ''xyz.rev2_e'' \<and>
   spec_classify ''XYZ.rev2_e.pdf'' XYZ = Some Dimension \<and>
   select_entry ''XYZ.rev2_e.pdf'' XYZ = Some (''datasheet'', ''_Datasheet'', ''.pdf'')"
  by (simp add: spec_classify_def classify_rules_def select_entry_def DOWNLOAD_KEYWORDS_def
      looks_like_dimension_def path_stem_def XYZ_def lower_def lower_char_def path_suffix_def
      path_name_def path_parts_def endswith_def)

text \<open>
  C3, amended. The category selection of \<open>distribute_file\<close> applies the rules of the claim
  in their order with the first match winning, where the stem of rule (4) is the text of
  the lower-cased name before its first dot: it selects the suffix token and container
  format of the category that this rule list gives, and nothing when no rule applies; a
  file that no rule classifies leaves the product directory as it is.
\<close>

theorem classification_priority_order:
  "map_option snd (select_entry fname context)
     = map_option canonical_slot (first_dot_classify fname context)
   \<and> (first_dot_classify fname context = None
        \<longrightarrow> distribute_file zsize fname f context dest = dest)"
proof -
  have r: "map_option snd (select_entry fname context)
      = map_option canonical_slot (first_dot_classify fname context)"
    by (rule select_entry_refines)
  have "distribute_file zsize fname f context dest = dest"
    if "first_dot_classify fname context = None"
  proof -
    from that r have "select_entry fname context = None" by simp
    then show ?thesis by (rule distribute_unclassified)
  qed
  with r show ?thesis by blast
qed

theorem classification_priority_order_witness:
  "first_dot_classify ''readme.txt'' XYZ = None \<and>
   distribute_file const_zsize ''readme.txt'' (File 2048 (Some ''Read'') None) XYZ
     [(''XYZ_Catalog.pdf'', pdf_file 2048)] = [(''XYZ_Catalog.pdf'', pdf_file 2048)] \<and>
   map (\<lambda>n. first_dot_classify n XYZ)
     [''Catalog_2020.pdf'', ''c_lfv.pdf'', ''d_lfv.pdf'', ''m_lfv.pdf'', ''data-sheet.pdf'',
      ''XYZ_e.pdf'', ''XYZ-spec.pdf'', ''model.stp'']
     = [Some Catalog, Some Catalog, Some Dimension, Some Manual, Some Datasheet,
        Some Dimension, Some Datasheet, Some STEP] \<and>
   map (\<lambda>n. map_option snd (select_entry n XYZ))
     [''Catalog_2020.pdf'', ''c_lfv.pdf'', ''d_lfv.pdf'', ''m_lfv.pdf'', ''data-sheet.pdf'',
      ''XYZ_e.pdf'', ''XYZ-spec.pdf'', ''model.stp'']
     = map (map_option canonical_slot)
        [Some Catalog, Some Catalog, Some Dimension, Some Manual, Some Datasheet,
         Some Dimension, Some Datasheet, Some STEP]"
proof -
  have c: "map (\<lambda>n. first_dot_classify n XYZ)
     [''Catalog_2020.pdf'', ''c_lfv.pdf'', ''d_lfv.pdf'', ''m_lfv.pdf'', ''data-sheet.pdf'',
      ''XYZ_e.pdf'', ''XYZ-spec.pdf'', ''model.stp'']
     = [Some Catalog, Some Catalog, Some Dimension, Some Manual, Some Datasheet,
        Some Dimension, Some Datasheet, Some STEP]"
    by (simp add: first_dot_classify_def classify_rules_def XYZ_def lower_def lower_char_def
        path_suffix_def path_name_def path_parts_def endswith_def)
  have n: "first_dot_classify ''readme.txt'' XYZ = None"
    by (simp add: first_dot_classify_def classify_rules_def XYZ_def lower_def lower_char_def
        path_suffix_def path_name_def path_parts_def endswith_def)
  have s: "map (\<lambda>n. map_option snd (select_entry n XYZ))
     [''Catalog_2020.pdf'', ''c_lfv.pdf'', ''d_lfv.pdf'', ''m_lfv.pdf'', ''data-sheet.pdf'',
      ''XYZ_e.pdf'', ''XYZ-spec.pdf'', ''model.stp'']
     = map (map_option canonical_slot) (map (\<lambda>n. first_dot_classify n XYZ)
     [''Catalog_2020.pdf'', ''c_lfv.pdf'', ''d_lfv.pdf'', ''m_lfv.pdf'', ''data-sheet.pdf'',
      ''XYZ_e.pdf'', ''XYZ-spec.pdf'', ''model.stp''])"
    using classification_priority_order [of _ XYZ] by simp
  from classification_priority_order [of "''readme.txt''" XYZ const_zsize
      "File 2048 (Some ''Read'') None" "[(''XYZ_Catalog.pdf'', pdf_file 2048)]"] n
  have u: "distribute_file const_zsize ''readme.txt'' (File 2048 (Some ''Read'') None) XYZ
     [(''XYZ_Catalog.pdf'', pdf_file 2048)] = [(''XYZ_Catalog.pdf'', pdf_file 2048)]"
    by blast
  from n u c s show ?thesis by (simp only: simp_thms)
qed

section \<open>Properties of the promotion\<close>







text \<open>
  C8. As stated the claim fails: the name \<open>STEP_data.stp\<close> contains the keyword \<open>step\<close>, so
  the keyword table classifies it before any fallback is reached, and the archive written
  holds the file under its own name, not under \<open>data.stp\<close>.
\<close>

theorem step_data_counterexample:
  "str_in ''step'' (lower ''STEP_data.stp'') \<and>
   select_entry ''STEP_data.stp'' XYZ = Some (''step'', ''_STEP'', ''.zip'') \<and>
   map_option (map fst) (Option.bind
     (map_of (distribute_file const_zsize ''STEP_data.stp'' (File 2048 (Some ''ISO-'') None) XYZ [])
        ''XYZ_STEP.zip'') members) = Some [''STEP_data.stp''] \<and>
   map_option (map fst) (Option.bind
     (map_of (distribute_file const_zsize ''STEP_data.stp'' (File 2048 (Some ''ISO-'') None) XYZ [])
        ''XYZ_STEP.zip'') members) \<noteq> Some [''data.stp'']"
  by (simp add: distribute_file_def select_entry_def DOWNLOAD_KEYWORDS_def lower_def lower_char_def
      XYZ_def path_suffix_def path_name_def path_parts_def make_archive_def write_zip_def)

text \<open>
  C8, amended. For product code \<open>XYZ\<close>, a downloaded file named \<open>STEP_data.stp\<close> is
  classified as STEP by the keyword \<open>step\<close> of the keyword table, and promotion writes
  \<open>XYZ_STEP.zip\<close> as an archive whose only member is the file under the name
  \<open>STEP_data.stp\<close>.
\<close>

theorem step_data_promotion:
  "find (\<lambda>entry. str_in (fst entry) (lower ''STEP_data.stp'')) DOWNLOAD_KEYWORDS
     = Some (''step'', ''_STEP'', ''.zip'') \<and>
   distribute_file zsize ''STEP_data.stp'' f (context\<lparr>code := ''XYZ''\<rparr>) dest
     = write_file ''XYZ_STEP.zip'' (make_archive zsize ''STEP_data.stp'' f) dest \<and>
   members (make_archive zsize ''STEP_data.stp'' f) = Some [(''STEP_data.stp'', f)]"
  by (simp add: distribute_file_def select_entry_def DOWNLOAD_KEYWORDS_def lower_def lower_char_def
      path_suffix_def path_name_def path_parts_def make_archive_def write_zip_def)

section \<open>Properties of the acquisition loop\<close>

text \<open>
  C10. When the product's output directory exists and the overwrite flag is not set,
  \<open>process_product\<close> returns \<open>False\<close> and the world is unchanged: the directory with its
  files and marker is as before, and no request is made to the driver.
\<close>

theorem existing_directory_skipped:
  "product w \<noteq> None \<Longrightarrow> \<not> overwrite \<Longrightarrow>
   process_product overwrite zsize context env w = (Return False, w)"
  by (simp add: process_product_def)

theorem existing_directory_skipped_witness:
  "product \<lparr>product = Some html_dxf_dir, trace = []\<rparr> \<noteq> None \<and>
   process_product False const_zsize XYZ (\<lambda>attempt. catalog_only_env)
       \<lparr>product = Some html_dxf_dir, trace = []\<rparr>
     = (Return False, \<lparr>product = Some html_dxf_dir, trace = []\<rparr>)"
  using existing_directory_skipped [of "\<lparr>product = Some html_dxf_dir, trace = []\<rparr>" False
      const_zsize XYZ "\<lambda>attempt. catalog_only_env"]
  by simp

text \<open>
  C1. The code does not do what the claim says. With a new product whose two attempts both
  deliver the catalog only, both completeness checks fail, and \<open>process_product\<close> returns
  \<open>True\<close> and leaves the directory on disk with the catalog in it and no marker.
\<close>

theorem two_failed_attempts_keep_directory:
  "fst (process_product False const_zsize XYZ (\<lambda>attempt. catalog_only_env)
          \<lparr>product = None, trace = []\<rparr>) = Return True \<and>
   product (snd (process_product False const_zsize XYZ (\<lambda>attempt. catalog_only_env)
          \<lparr>product = None, trace = []\<rparr>))
     = Some \<lparr>dir_name = ''XYZ'', files = [(''XYZ_Catalog.pdf'', pdf_file 2048)],
             images = ImagesDir []\<rparr> \<and>
   \<not> required_files_present \<lparr>dir_name = ''XYZ'', files = [(''XYZ_Catalog.pdf'', pdf_file 2048)],
             images = ImagesDir []\<rparr> \<and>
   length (filter (\<lambda>e. e = CollectRequiredDocuments)
      (trace (snd (process_product False const_zsize XYZ (\<lambda>attempt. catalog_only_env)
          \<lparr>product = None, trace = []\<rparr>)))) = 2"
  by (simp add: process_product_def ensure_images_def catalog_only_env_def XYZ_def
      download_product_image_def download_product_manual_def Let_def
      distribute_file_def select_entry_def DOWNLOAD_KEYWORDS_def lower_def lower_char_def
      path_suffix_def path_name_def path_parts_def pdf_file_def is_pdf_def PDF_MAGIC_def
      required_files_present_def required_def endswith_def image_present_def)

section \<open>Properties of the completeness check\<close>

lemma image_present_iff:
  "image_present (ImagesDir es) = (\<exists>n f. (n, RegularFile f) \<in> set es \<and> 1000 < st_size f)"
  unfolding image_present_def list_ex_iff
  by (fastforce split: dirent.splits)

lemma images_ok_iff:
  "images_ok (ImagesDir es)
     = (\<exists>n f. (n, RegularFile f) \<in> set es \<and> lower (path_suffix n) \<in> set IMAGE_EXTS
          \<and> 0 < st_size f)"
  unfolding images_ok_def list_ex_iff
  by (fastforce split: dirent.splits)

lemma check_required_first_match:
  assumes "check_required product_code fs sufs" and "suffix \<in> set sufs"
    and "suffix \<noteq> ''_Manual.pdf''" and "suffix \<noteq> ''_STEP.zip''"
  shows "\<exists>name f rest.
           filter (\<lambda>(name, f). endswith name suffix) fs = (name, f) # rest \<and>
           1000 \<le> st_size f \<and> (endswith suffix ''.pdf'' \<longrightarrow> is_pdf f) \<and>
           str_in product_code name"
  using assms
proof (induction sufs)
  case Nil
  then show ?case by simp
next
  case (Cons s sufs)
  show ?case
  proof (cases "s = suffix")
    case True
    with Cons.prems show ?thesis
      by (auto split: list.splits if_splits)
  next
    case False
    with Cons.prems have "check_required product_code fs sufs" and "suffix \<in> set sufs"
      by (auto split: list.splits if_splits)
    with Cons.IH Cons.prems show ?thesis by blast
  qed
qed

text \<open>
  C2. As stated the claim fails: a directory whose \<open>_DXF.zip\<close> file is large enough and
  carries the product code passes the check although the file is no archive at all, so the
  format check the claim requires of a zip category is not made.
\<close>

theorem completeness_zip_counterexample:
  "required_files_present html_dxf_dir \<and> \<not> spec_complete html_dxf_dir"
  by (simp add: required_files_present_def html_dxf_dir_def required_def endswith_def
      pdf_file_def png_file_def is_pdf_def PDF_MAGIC_def image_present_def spec_complete_def
      spec_category_ok_def spec_format_ok_def)

text \<open>
  C2, amended. When \<open>_required_files_present\<close> returns \<open>True\<close>, then for each required
  category (Catalog, Dimension, DXF) a file matching the category's suffix exists, and the
  matching file that the check examines (the first one in the iteration over the names)
  has at least 1000 bytes, begins with \<open>%PDF\<close> when the category is a PDF category, and has
  the product code in its name; and \<open>Images/\<close> holds a regular file of more than 1000
  bytes. For a zip category no format check is made.
\<close>

theorem completeness_only_if:
  "required_files_present d \<Longrightarrow>
   suffix \<in> {''_Catalog.pdf'', ''_Dimension.pdf'', ''_DXF.zip''} \<Longrightarrow>
   (\<exists>name f rest.
      filter (\<lambda>(name, f). endswith name suffix) (files d) = (name, f) # rest \<and>
      1000 \<le> st_size f \<and>
      (endswith suffix ''.pdf'' \<longrightarrow> read4 f = Some ''%PDF'') \<and>
      str_in (dir_name d) name) \<and>
   (\<exists>entries n f. images d = ImagesDir entries \<and> (n, RegularFile f) \<in> set entries
      \<and> 1000 < st_size f)"
proof -
  assume ok: "required_files_present d"
    and suf: "suffix \<in> {''_Catalog.pdf'', ''_Dimension.pdf'', ''_DXF.zip''}"
  from ok have chk: "check_required (dir_name d) (files d) required"
    and img: "image_present (images d)"
    by (auto simp add: required_files_present_def split: if_splits)
  from suf have "suffix \<in> set required" "suffix \<noteq> ''_Manual.pdf''" "suffix \<noteq> ''_STEP.zip''"
    by (auto simp add: required_def)
  with chk have "\<exists>name f rest.
           filter (\<lambda>(name, f). endswith name suffix) (files d) = (name, f) # rest \<and>
           1000 \<le> st_size f \<and> (endswith suffix ''.pdf'' \<longrightarrow> is_pdf f) \<and>
           str_in (dir_name d) name"
    by (rule check_required_first_match)
  then have first: "\<exists>name f rest.
      filter (\<lambda>(name, f). endswith name suffix) (files d) = (name, f) # rest \<and>
      1000 \<le> st_size f \<and>
      (endswith suffix ''.pdf'' \<longrightarrow> read4 f = Some ''%PDF'') \<and>
      str_in (dir_name d) name"
    by (auto simp add: is_pdf_def PDF_MAGIC_def split: option.splits)
  from img obtain entries where e: "images d = ImagesDir entries"
    by (cases "images d") (simp_all add: image_present_def)
  with img have "\<exists>n f. (n, RegularFile f) \<in> set entries \<and> 1000 < st_size f"
    by (simp add: image_present_iff)
  with e have "\<exists>entries n f. images d = ImagesDir entries \<and> (n, RegularFile f) \<in> set entries
      \<and> 1000 < st_size f"
    by blast
  with first show ?thesis by blast
qed

theorem completeness_only_if_witness:
  "required_files_present html_dxf_dir \<and>
   ''_Dimension.pdf'' \<in> {''_Catalog.pdf'', ''_Dimension.pdf'', ''_DXF.zip''} \<and>
   (\<exists>name f rest.
      filter (\<lambda>(name, f). endswith name ''_Dimension.pdf'') (files html_dxf_dir) = (name, f) # rest \<and>
      1000 \<le> st_size f \<and> read4 f = Some ''%PDF'' \<and> str_in (dir_name html_dxf_dir) name)"
proof -
  have ok: "required_files_present html_dxf_dir"
    by (simp add: required_files_present_def html_dxf_dir_def required_def endswith_def
      pdf_file_def png_file_def is_pdf_def PDF_MAGIC_def image_present_def)
  have mem: "''_Dimension.pdf'' \<in> {''_Catalog.pdf'', ''_Dimension.pdf'', ''_DXF.zip''}"
    by simp
  have pdf: "endswith ''_Dimension.pdf'' ''.pdf''"
    by (simp add: endswith_def)
  from completeness_only_if [OF ok mem] pdf ok mem show ?thesis
    by blast
qed

section \<open>Properties of the image checks\<close>

text \<open>
  C9. As stated the claim fails in both directions: a small image file satisfies the
  auditor and not the validator, and a large file without an image extension satisfies the
  validator and not the auditor.
\<close>

theorem image_checks_counterexample:
  "images_ok (ImagesDir [(''XYZ.png'', RegularFile (png_file 500))]) \<and>
   \<not> image_present (ImagesDir [(''XYZ.png'', RegularFile (png_file 500))]) \<and>
   image_present (ImagesDir [(''XYZ.bmp'', RegularFile (File 5000 (Some ''BM6.'') None))]) \<and>
   \<not> images_ok (ImagesDir [(''XYZ.bmp'', RegularFile (File 5000 (Some ''BM6.'') None))])"
  by (simp add: images_ok_def image_present_def png_file_def IMAGE_EXTS_def lower_def
      lower_char_def path_suffix_def path_name_def path_parts_def)

text \<open>
  C9, amended. The auditor accepts \<open>Images/\<close> when it is a directory holding a regular
  file that has one of the image extensions and is not empty. The two checks agree when
  \<open>Images/\<close> is missing or not a directory, and on every directory all of whose regular
  files have an image extension and are either empty or larger than 1000 bytes.
\<close>

theorem image_checks_agree:
  "images_ok Absent = image_present Absent \<and>
   images_ok NotADirectory = image_present NotADirectory \<and>
   ((\<forall>n f. (n, RegularFile f) \<in> set entries \<longrightarrow>
        lower (path_suffix n) \<in> set IMAGE_EXTS \<and> (st_size f = 0 \<or> 1000 < st_size f))
    \<longrightarrow> images_ok (ImagesDir entries) = image_present (ImagesDir entries))"
proof -
  have "images_ok Absent = image_present Absent"
    and "images_ok NotADirectory = image_present NotADirectory"
    by (simp_all add: images_ok_def image_present_def)
  moreover have "images_ok (ImagesDir entries) = image_present (ImagesDir entries)"
    if h: "\<forall>n f. (n, RegularFile f) \<in> set entries \<longrightarrow>
        lower (path_suffix n) \<in> set IMAGE_EXTS \<and> (st_size f = 0 \<or> 1000 < st_size f)"
  proof
    assume "images_ok (ImagesDir entries)"
    then obtain n f where m: "(n, RegularFile f) \<in> set entries" and pos: "0 < st_size f"
      by (auto simp add: images_ok_iff)
    from h m have "st_size f = 0 \<or> 1000 < st_size f" by blast
    with m pos have "(n, RegularFile f) \<in> set entries \<and> 1000 < st_size f" by simp
    then show "image_present (ImagesDir entries)"
      unfolding image_present_iff by blast
  next
    assume "image_present (ImagesDir entries)"
    then obtain n f where m: "(n, RegularFile f) \<in> set entries" and big: "1000 < st_size f"
      by (auto simp add: image_present_iff)
    with h have "lower (path_suffix n) \<in> set IMAGE_EXTS" by blast
    with m big have "(n, RegularFile f) \<in> set entries \<and> lower (path_suffix n) \<in> set IMAGE_EXTS
          \<and> 0 < st_size f" by simp
    then show "images_ok (ImagesDir entries)"
      unfolding images_ok_iff by blast
  qed
  ultimately show ?thesis by blast
qed

theorem image_checks_agree_witness:
  "lower (path_suffix ''XYZ.png'') \<in> set IMAGE_EXTS \<and>
   1000 < st_size (png_file 5000) \<and>
   images_ok (ImagesDir [(''XYZ.png'', RegularFile (png_file 5000)), (''old'', Subdirectory)]) \<and>
   image_present (ImagesDir [(''XYZ.png'', RegularFile (png_file 5000)), (''old'', Subdirectory)])"
proof -
  have e: "lower (path_suffix ''XYZ.png'') \<in> set IMAGE_EXTS"
    by (simp add: IMAGE_EXTS_def lower_def lower_char_def path_suffix_def path_name_def
        path_parts_def)
  have z: "1000 < st_size (png_file 5000)"
    by (simp add: png_file_def)
  from e z
  have h: "\<forall>n f. (n, RegularFile f)
          \<in> set [(''XYZ.png'', RegularFile (png_file 5000)), (''old'', Subdirectory)] \<longrightarrow>
        lower (path_suffix n) \<in> set IMAGE_EXTS \<and> (st_size f = 0 \<or> 1000 < st_size f)"
    by simp
  have p: "image_present
      (ImagesDir [(''XYZ.png'', RegularFile (png_file 5000)), (''old'', Subdirectory)])"
    by (simp add: image_present_def png_file_def)
  from image_checks_agree
    [of "[(''XYZ.png'', RegularFile (png_file 5000)), (''old'', Subdirectory)]"] h p e z
  show ?thesis by blast
qed

section \<open>Properties of the archive sanitizer\<close>

























section \<open>Properties of the deduplication\<close>

lemma fold_try_unlink:
  "fold (try_unlink U) ps fs = filter (\<lambda>e. fst e \<notin> set ps - set U) fs"
proof (induction ps arbitrary: fs)
  case Nil
  then show ?case by simp
next
  case (Cons p ps)
  have "fold (try_unlink U) (p # ps) fs
      = filter (\<lambda>e. fst e \<notin> set ps - set U) (try_unlink U p fs)"
    by (simp add: Cons.IH)
  also have "\<dots> = filter (\<lambda>e. fst e \<notin> set (p # ps) - set U) fs"
    by (auto simp add: try_unlink_def unlink_def intro: filter_cong)
  finally show ?case .
qed

lemma py_max_mem: "py_max key b xs \<in> set (b # xs)"
  by (induction xs arbitrary: b) auto

lemma py_max_ge: "x \<in> set (b # xs) \<Longrightarrow> key x \<le> key (py_max key b xs)"
proof (induction xs arbitrary: b x)
  case Nil
  then show ?case by simp
next
  case (Cons y ys)
  show ?case
  proof (cases "key b < key y")
    case True
    from Cons.prems have "x = b \<or> x \<in> set (y # ys)" by auto
    then show ?thesis
    proof
      assume "x = b"
      with True have "key x \<le> key y" by simp
      also have "key y \<le> key (py_max key y ys)" by (rule Cons.IH) simp
      finally show ?thesis using True by simp
    next
      assume "x \<in> set (y # ys)"
      then have "key x \<le> key (py_max key y ys)" by (rule Cons.IH)
      with True show ?thesis by simp
    qed
  next
    case False
    from Cons.prems have "x = y \<or> x \<in> set (b # ys)" by auto
    then show ?thesis
    proof
      assume "x = y"
      with False have "key x \<le> key b" by simp
      also have "key b \<le> key (py_max key b ys)" by (rule Cons.IH) simp
      finally show ?thesis using False by simp
    next
      assume "x \<in> set (b # ys)"
      then have "key x \<le> key (py_max key b ys)" by (rule Cons.IH)
      with False show ?thesis by simp
    qed
  qed
qed

lemma map_of_filter_keys:
  "k \<notin> R \<Longrightarrow> map_of (filter (\<lambda>e. fst e \<notin> R) fs) k = map_of fs k"
  by (induction fs) auto

lemma size_key_filter:
  "k \<notin> R \<Longrightarrow> size_key (filter (\<lambda>e. fst e \<notin> R) fs) k = size_key fs k"
  by (simp add: size_key_def map_of_filter_keys)

lemma remove_duplicates_filter:
  "remove_duplicates U bs fs = (removed, fs') \<Longrightarrow>
   \<exists>D. D \<subseteq> set (concat (map snd bs)) \<and> fs' = filter (\<lambda>e. fst e \<notin> D) fs"
proof (induction U bs fs arbitrary: removed fs' rule: remove_duplicates.induct)
  case (1 U fs)
  then have "fs' = filter (\<lambda>e. fst e \<notin> {}) fs" by simp
  then show ?case by (intro exI [of _ "{}"]) simp
next
  case (2 U suffix paths rest fs)
  show ?case
  proof (cases paths)
    case Nil
    with "2.prems" have "remove_duplicates U rest fs = (removed, fs')" by simp
    with Nil "2.IH"(1) obtain D where "D \<subseteq> set (concat (map snd rest))"
      "fs' = filter (\<lambda>e. fst e \<notin> D) fs" by blast
    then show ?thesis by (intro exI [of _ D]) auto
  next
    case (Cons p ps)
    show ?thesis
    proof (cases ps)
      case Nil
      with Cons "2.prems" have "remove_duplicates U rest fs = (removed, fs')" by simp
      with Cons Nil "2.IH"(2) obtain D where "D \<subseteq> set (concat (map snd rest))"
        "fs' = filter (\<lambda>e. fst e \<notin> D) fs" by blast
      then show ?thesis by (intro exI [of _ D]) auto
    next
      case inner: (Cons q qs)
      define keep where "keep = py_max (size_key fs) p (q # qs)"
      define to_remove where "to_remove = filter (\<lambda>x. x \<noteq> keep) paths"
      define fs1 where "fs1 = fold (try_unlink U) to_remove fs"
      obtain removed1 fs2 where r: "remove_duplicates U rest fs1 = (removed1, fs2)"
        by (cases "remove_duplicates U rest fs1")
      with "2.prems" Cons inner have eq: "fs' = fs2"
        by (simp add: keep_def to_remove_def fs1_def Let_def)
      from "2.IH"(3) [OF Cons inner keep_def to_remove_def fs1_def r]
      obtain D where D: "D \<subseteq> set (concat (map snd rest))"
        "fs2 = filter (\<lambda>e. fst e \<notin> D) fs1" by blast
      have "fs1 = filter (\<lambda>e. fst e \<notin> set to_remove - set U) fs"
        by (simp add: fs1_def fold_try_unlink)
      with D eq have "fs' = filter (\<lambda>e. fst e \<notin> D \<union> (set to_remove - set U)) fs"
        by (auto intro: filter_cong)
      moreover have "D \<union> (set to_remove - set U)
          \<subseteq> set (concat (map snd ((suffix, paths) # rest)))"
        using D(1) by (auto simp add: to_remove_def)
      ultimately show ?thesis by blast
    qed
  qed
qed

lemma remove_duplicates_keys:
  "remove_duplicates U bs fs = (removed, fs') \<Longrightarrow> (s, r) \<in> set removed \<Longrightarrow>
   \<exists>ps. (s, ps) \<in> set bs \<and> 2 \<le> length ps"
proof (induction U bs fs arbitrary: removed fs' rule: remove_duplicates.induct)
  case (1 U fs)
  then show ?case by simp
next
  case (2 U suffix paths rest fs)
  show ?case
  proof (cases paths)
    case Nil
    with "2.prems" have "remove_duplicates U rest fs = (removed, fs')" by simp
    from "2.IH"(1) [OF Nil this "2.prems"(2)] show ?thesis by auto
  next
    case (Cons p ps)
    show ?thesis
    proof (cases ps)
      case Nil
      with Cons "2.prems" have "remove_duplicates U rest fs = (removed, fs')" by simp
      from "2.IH"(2) [OF Cons Nil this "2.prems"(2)] show ?thesis by auto
    next
      case inner: (Cons q qs)
      define keep where "keep = py_max (size_key fs) p (q # qs)"
      define to_remove where "to_remove = filter (\<lambda>x. x \<noteq> keep) paths"
      define fs1 where "fs1 = fold (try_unlink U) to_remove fs"
      obtain removed1 fs2 where r: "remove_duplicates U rest fs1 = (removed1, fs2)"
        by (cases "remove_duplicates U rest fs1")
      with "2.prems" Cons inner have eq: "removed = (suffix, to_remove) # removed1"
        by (simp add: keep_def to_remove_def fs1_def Let_def)
      with "2.prems"(2) have "(s, r) = (suffix, to_remove) \<or> (s, r) \<in> set removed1" by auto
      then show ?thesis
      proof
        assume "(s, r) = (suffix, to_remove)"
        with Cons inner show ?thesis by auto
      next
        assume "(s, r) \<in> set removed1"
        from "2.IH"(3) [OF Cons inner keep_def to_remove_def fs1_def r this]
        show ?thesis by auto
      qed
    qed
  qed
qed

lemma bucket_disjoint:
  assumes "distinct (concat (map snd ((s0, ps0) # rest)))" and "(s, ps) \<in> set rest"
  shows "set ps \<inter> set ps0 = {}"
proof -
  from assms(1) have "set ps0 \<inter> (\<Union>a\<in>set rest. set (snd a)) = {}" by simp
  moreover from assms(2) have "set ps \<subseteq> (\<Union>a\<in>set rest. set (snd a))" by force
  ultimately show ?thesis by blast
qed

lemma remove_duplicates_big:
  assumes "remove_duplicates U bs fs = (removed, fs')"
    and "distinct (concat (map snd bs))"
    and "(suffix, paths) \<in> set bs" and "2 \<le> length paths"
  shows "\<exists>keep\<in>set paths.
           filter (\<lambda>e. fst e \<in> set paths) fs'
             = filter (\<lambda>e. fst e \<in> set paths \<and> (fst e = keep \<or> fst e \<in> set U)) fs \<and>
           (\<forall>p\<in>set paths. size_key fs p \<le> size_key fs keep) \<and>
           (suffix, filter (\<lambda>p. p \<noteq> keep) paths) \<in> set removed"
  using assms
proof (induction U bs fs arbitrary: removed fs' rule: remove_duplicates.induct)
  case (1 U fs)
  then show ?case by simp
next
  case (2 U suffix0 paths0 rest fs)
  from "2.prems"(2) have drest: "distinct (concat (map snd rest))" by simp
  show ?case
  proof (cases paths0)
    case Nil
    with "2.prems" have rd: "remove_duplicates U rest fs = (removed, fs')"
      and "(suffix, paths) \<in> set rest" by auto
    from "2.IH"(1) [OF Nil rd drest this(2) "2.prems"(4)] show ?thesis .
  next
    case (Cons p ps)
    show ?thesis
    proof (cases ps)
      case Nil
      with Cons "2.prems" have rd: "remove_duplicates U rest fs = (removed, fs')"
        and "(suffix, paths) \<in> set rest" by auto
      from "2.IH"(2) [OF Cons Nil rd drest this(2) "2.prems"(4)] show ?thesis .
    next
      case inner: (Cons q qs)
      define keep where "keep = py_max (size_key fs) p (q # qs)"
      define to_remove where "to_remove = filter (\<lambda>x. x \<noteq> keep) paths0"
      define fs1 where "fs1 = fold (try_unlink U) to_remove fs"
      obtain removed1 fs2 where r: "remove_duplicates U rest fs1 = (removed1, fs2)"
        by (cases "remove_duplicates U rest fs1")
      with "2.prems"(1) Cons inner have eq: "removed = (suffix0, to_remove) # removed1" "fs' = fs2"
        by (simp_all add: keep_def to_remove_def fs1_def Let_def)
      have fs1: "fs1 = filter (\<lambda>e. fst e \<notin> set to_remove - set U) fs"
        by (simp add: fs1_def fold_try_unlink)
      have sub: "set to_remove \<subseteq> set paths0" by (auto simp add: to_remove_def)
      from "2.prems"(3) have "(suffix, paths) = (suffix0, paths0) \<or> (suffix, paths) \<in> set rest"
        by auto
      then show ?thesis
      proof
        assume h: "(suffix, paths) = (suffix0, paths0)"
        have km: "keep \<in> set paths0"
          unfolding keep_def Cons inner by (rule py_max_mem)
        have kg: "\<forall>x\<in>set paths0. size_key fs x \<le> size_key fs keep"
          unfolding keep_def Cons inner by (blast intro: py_max_ge)
        from remove_duplicates_filter [OF r] obtain D where
          D: "D \<subseteq> set (concat (map snd rest))" "fs2 = filter (\<lambda>e. fst e \<notin> D) fs1" by blast
        from "2.prems"(2) D(1) have disj: "D \<inter> set paths0 = {}" by auto
        have "filter (\<lambda>e. fst e \<in> set paths0) fs'
            = filter (\<lambda>e. fst e \<in> set paths0 \<and> (fst e = keep \<or> fst e \<in> set U)) fs"
          unfolding eq D fs1 filter_filter
          using disj km by (intro filter_cong) (auto simp add: to_remove_def)
        with h km kg eq show ?thesis
          by (intro bexI [of _ keep]) (auto simp add: to_remove_def)
      next
        assume h: "(suffix, paths) \<in> set rest"
        from "2.IH"(3) [OF Cons inner keep_def to_remove_def fs1_def r drest h "2.prems"(4)]
        obtain k where k: "k \<in> set paths"
          "filter (\<lambda>e. fst e \<in> set paths) fs2
             = filter (\<lambda>e. fst e \<in> set paths \<and> (fst e = k \<or> fst e \<in> set U)) fs1"
          "\<forall>x\<in>set paths. size_key fs1 x \<le> size_key fs1 k"
          "(suffix, filter (\<lambda>x. x \<noteq> k) paths) \<in> set removed1" by blast
        from "2.prems"(2) h have "set paths \<inter> set paths0 = {}" by (rule bucket_disjoint)
        with sub have out: "\<And>x. x \<in> set paths \<Longrightarrow> x \<notin> set to_remove - set U" by auto
        have sk: "size_key fs1 x = size_key fs x" if "x \<in> set paths" for x
          unfolding fs1 using out [OF that] by (rule size_key_filter)
        from out
        have "filter (\<lambda>e. fst e \<in> set paths \<and> (fst e = k \<or> fst e \<in> set U)) fs1
            = filter (\<lambda>e. fst e \<in> set paths \<and> (fst e = k \<or> fst e \<in> set U)) fs"
          unfolding fs1 filter_filter by (intro filter_cong) auto
        with k sk eq show ?thesis
          by (intro bexI [of _ k]) auto
      qed
    qed
  qed
qed

lemma remove_duplicates_small:
  assumes "remove_duplicates U bs fs = (removed, fs')"
    and "distinct (concat (map snd bs))"
    and "(suffix, paths) \<in> set bs" and "length paths \<le> 1"
  shows "filter (\<lambda>e. fst e \<in> set paths) fs' = filter (\<lambda>e. fst e \<in> set paths) fs"
  using assms
proof (induction U bs fs arbitrary: removed fs' rule: remove_duplicates.induct)
  case (1 U fs)
  then show ?case by simp
next
  case (2 U suffix0 paths0 rest fs)
  from "2.prems"(2) have drest: "distinct (concat (map snd rest))" by simp
  have head: "filter (\<lambda>e. fst e \<in> set paths) fs' = filter (\<lambda>e. fst e \<in> set paths) fs"
    if rd: "remove_duplicates U rest fs = (removed, fs')" and h: "(suffix, paths) = (suffix0, paths0)"
  proof -
    from remove_duplicates_filter [OF rd] obtain D where
      D: "D \<subseteq> set (concat (map snd rest))" "fs' = filter (\<lambda>e. fst e \<notin> D) fs" by blast
    from "2.prems"(2) D(1) h have "D \<inter> set paths = {}" by auto
    then show ?thesis
      unfolding D filter_filter by (intro filter_cong) auto
  qed
  show ?case
  proof (cases paths0)
    case Nil
    with "2.prems" have rd: "remove_duplicates U rest fs = (removed, fs')" by simp
    from "2.prems"(3) have "(suffix, paths) = (suffix0, paths0) \<or> (suffix, paths) \<in> set rest"
      by auto
    then show ?thesis
    proof
      assume "(suffix, paths) = (suffix0, paths0)"
      with rd show ?thesis by (rule head)
    next
      assume "(suffix, paths) \<in> set rest"
      from "2.IH"(1) [OF Nil rd drest this "2.prems"(4)] show ?thesis .
    qed
  next
    case (Cons p ps)
    show ?thesis
    proof (cases ps)
      case Nil
      with Cons "2.prems" have rd: "remove_duplicates U rest fs = (removed, fs')" by simp
      from "2.prems"(3) have "(suffix, paths) = (suffix0, paths0) \<or> (suffix, paths) \<in> set rest"
        by auto
      then show ?thesis
      proof
        assume "(suffix, paths) = (suffix0, paths0)"
        with rd show ?thesis by (rule head)
      next
        assume "(suffix, paths) \<in> set rest"
        from "2.IH"(2) [OF Cons Nil rd drest this "2.prems"(4)] show ?thesis .
      qed
    next
      case inner: (Cons q qs)
      define keep where "keep = py_max (size_key fs) p (q # qs)"
      define to_remove where "to_remove = filter (\<lambda>x. x \<noteq> keep) paths0"
      define fs1 where "fs1 = fold (try_unlink U) to_remove fs"
      obtain removed1 fs2 where r: "remove_duplicates U rest fs1 = (removed1, fs2)"
        by (cases "remove_duplicates U rest fs1")
      with "2.prems"(1) Cons inner have eq: "fs' = fs2"
        by (simp_all add: keep_def to_remove_def fs1_def Let_def)
      have fs1: "fs1 = filter (\<lambda>e. fst e \<notin> set to_remove - set U) fs"
        by (simp add: fs1_def fold_try_unlink)
      have sub: "set to_remove \<subseteq> set paths0" by (auto simp add: to_remove_def)
      from "2.prems"(3,4) Cons inner have h: "(suffix, paths) \<in> set rest" by auto
      from "2.IH"(3) [OF Cons inner keep_def to_remove_def fs1_def r drest h "2.prems"(4)]
      have "filter (\<lambda>e. fst e \<in> set paths) fs2 = filter (\<lambda>e. fst e \<in> set paths) fs1" .
      moreover from "2.prems"(2) h have "set paths \<inter> set paths0 = {}"
        by (rule bucket_disjoint)
      with sub have "filter (\<lambda>e. fst e \<in> set paths) fs1 = filter (\<lambda>e. fst e \<in> set paths) fs"
        unfolding fs1 filter_filter by (intro filter_cong) auto
      ultimately show ?thesis using eq by simp
    qed
  qed
qed

lemma setdefault_append_keys:
  "fst ` set (setdefault_append s p bs) = insert s (fst ` set bs)"
proof (induction bs)
  case Nil
  show ?case by simp
next
  case (Cons b bs)
  obtain s0 ps0 where b: "b = (s0, ps0)" by (cases b)
  show ?case
  proof (cases "s0 = s")
    case True
    with b show ?thesis by simp
  next
    case False
    with b Cons.IH show ?thesis by (simp add: insert_commute)
  qed
qed

lemma setdefault_append_distinct_keys:
  "distinct (map fst bs) \<Longrightarrow> distinct (map fst (setdefault_append s p bs))"
proof (induction bs)
  case Nil
  then show ?case by simp
next
  case (Cons b bs)
  obtain s0 ps0 where b: "b = (s0, ps0)" by (cases b)
  show ?case
  proof (cases "s0 = s")
    case True
    with Cons.prems b show ?thesis by simp
  next
    case False
    from Cons.prems have "distinct (map fst (setdefault_append s p bs))"
      by (intro Cons.IH) simp
    moreover from Cons.prems b False have "s0 \<notin> fst ` set (setdefault_append s p bs)"
      unfolding setdefault_append_keys by simp
    ultimately show ?thesis using b False by simp
  qed
qed

lemma setdefault_append_paths:
  "set (concat (map snd (setdefault_append s p bs))) = insert p (set (concat (map snd bs)))"
proof (induction bs)
  case Nil
  show ?case by simp
next
  case (Cons b bs)
  obtain s0 ps0 where b: "b = (s0, ps0)" by (cases b)
  show ?case
  proof (cases "s0 = s")
    case True
    with b show ?thesis by simp
  next
    case False
    have "set (concat (map snd (setdefault_append s p (b # bs))))
        = set ps0 \<union> set (concat (map snd (setdefault_append s p bs)))"
      using b False by simp
    also have "\<dots> = set ps0 \<union> insert p (set (concat (map snd bs)))"
      by (simp only: Cons.IH)
    also have "\<dots> = insert p (set (concat (map snd (b # bs))))"
      using b by simp
    finally show ?thesis .
  qed
qed

lemma setdefault_append_distinct_paths:
  "distinct (concat (map snd bs)) \<Longrightarrow> p \<notin> set (concat (map snd bs)) \<Longrightarrow>
   distinct (concat (map snd (setdefault_append s p bs)))"
proof (induction bs)
  case Nil
  then show ?case by simp
next
  case (Cons b bs)
  obtain s0 ps0 where b: "b = (s0, ps0)" by (cases b)
  show ?case
  proof (cases "s0 = s")
    case True
    with Cons.prems b show ?thesis by auto
  next
    case False
    from Cons.prems b have "distinct (concat (map snd (setdefault_append s p bs)))"
      by (intro Cons.IH) auto
    moreover from Cons.prems b
    have "set ps0 \<inter> set (concat (map snd (setdefault_append s p bs))) = {}"
      unfolding setdefault_append_paths by auto
    ultimately show ?thesis using Cons.prems b False by simp
  qed
qed

lemma collect_invariant:
  assumes stp: "\<And>b p. stp b p = b \<or> (\<exists>s. stp b p = setdefault_append s p b)"
    and "distinct ps" and "distinct (map fst acc)" and "distinct (concat (map snd acc))"
    and "set ps \<inter> set (concat (map snd acc)) = {}"
  shows "distinct (map fst (foldl stp acc ps)) \<and>
         distinct (concat (map snd (foldl stp acc ps))) \<and>
         set (concat (map snd (foldl stp acc ps))) \<subseteq> set (concat (map snd acc)) \<union> set ps"
  using assms(2-)
proof (induction ps arbitrary: acc)
  case Nil
  then show ?case by simp
next
  case (Cons p ps)
  define acc1 where "acc1 = stp acc p"
  define X where "X = set (concat (map snd acc))"
  define X1 where "X1 = set (concat (map snd acc1))"
  from Cons.prems(1) have pp: "p \<notin> set ps" and dps: "distinct ps" by simp_all
  from Cons.prems(4) have "insert p (set ps) \<inter> X = {}" by (simp only: list.set X_def)
  then have pn: "p \<notin> X" and psX: "set ps \<inter> X = {}" by blast+
  from stp [of acc p] have shape: "acc1 = acc \<or> (\<exists>s. acc1 = setdefault_append s p acc)"
    by (simp only: acc1_def)
  have k: "distinct (map fst acc1)"
    using shape Cons.prems(2) by (blast intro: setdefault_append_distinct_keys)
  have d: "distinct (concat (map snd acc1))"
    using shape Cons.prems(3) pn unfolding X_def
    by (blast intro: setdefault_append_distinct_paths)
  have sub: "X1 \<subseteq> insert p X"
    using shape unfolding X1_def X_def
    by (auto simp only: setdefault_append_paths)
  with psX pp have "set ps \<inter> X1 = {}" by blast
  then have dj: "set ps \<inter> set (concat (map snd acc1)) = {}" by (simp only: X1_def)
  have step_eq: "foldl stp acc (p # ps) = foldl stp acc1 ps"
    by (simp only: foldl_Cons acc1_def)
  define Y where "Y = set (concat (map snd (foldl stp acc1 ps)))"
  from Cons.IH [OF dps k d dj]
  have ih1: "distinct (map fst (foldl stp acc1 ps))"
    and ih2: "distinct (concat (map snd (foldl stp acc1 ps)))"
    and ih3: "Y \<subseteq> X1 \<union> set ps"
    unfolding Y_def X1_def by blast+
  from ih3 sub have "Y \<subseteq> X \<union> insert p (set ps)" by blast
  then have "set (concat (map snd (foldl stp acc1 ps)))
      \<subseteq> set (concat (map snd acc)) \<union> set (p # ps)"
    by (simp only: Y_def X_def list.set)
  with ih1 ih2 show ?case by (simp only: step_eq simp_thms)
qed

lemma collect_by_suffix_invariant:
  assumes "distinct fnames"
  shows "distinct (map fst (collect_by_suffix fnames))"
    and "distinct (concat (map snd (collect_by_suffix fnames)))"
    and "set (concat (map snd (collect_by_suffix fnames))) \<subseteq> set fnames"
proof -
  define stp :: "buckets \<Rightarrow> string \<Rightarrow> buckets" where
    "stp = (\<lambda>buckets p.
              case find (\<lambda>suffix. endswith p suffix) (map fst REQUIRED @ map fst OPTIONAL) of
                None \<Rightarrow> buckets
              | Some suffix \<Rightarrow> setdefault_append suffix p buckets)"
  have shape: "stp b p = b \<or> (\<exists>s. stp b p = setdefault_append s p b)" for b p
    by (cases "find (\<lambda>suffix. endswith p suffix) (map fst REQUIRED @ map fst OPTIONAL)")
      (auto simp add: stp_def)
  have c: "collect_by_suffix fnames = foldl stp [] fnames"
    by (simp only: collect_by_suffix_def stp_def)
  have e: "distinct (map fst ([] :: buckets))" "distinct (concat (map snd ([] :: buckets)))"
    "set fnames \<inter> set (concat (map snd ([] :: buckets))) = {}"
    by simp_all
  from collect_invariant [of stp, OF shape assms e]
  show "distinct (map fst (collect_by_suffix fnames))"
    and "distinct (concat (map snd (collect_by_suffix fnames)))"
    and "set (concat (map snd (collect_by_suffix fnames))) \<subseteq> set fnames"
    unfolding c by simp_all
qed

lemma distinct_filter_key:
  "distinct (map fst fs) \<Longrightarrow> (k, v) \<in> set fs \<Longrightarrow> filter (\<lambda>e. fst e = k) fs = [(k, v)]"
proof (induction fs)
  case Nil
  then show ?case by simp
next
  case (Cons e fs)
  show ?case
  proof (cases "fst e = k")
    case True
    from Cons.prems(1) have notin: "fst e \<notin> fst ` set fs" by simp
    have "(k, v) \<notin> set fs"
    proof
      assume "(k, v) \<in> set fs"
      then have "fst (k, v) \<in> fst ` set fs" by (rule imageI)
      with True notin show False by simp
    qed
    with Cons.prems(2) have e: "e = (k, v)" by simp
    have "filter (\<lambda>e. fst e = k) fs = []"
    proof (rule ccontr)
      assume "filter (\<lambda>e. fst e = k) fs \<noteq> []"
      then obtain x where "x \<in> set fs" "fst x = k"
        by (auto simp add: filter_empty_conv)
      then have "k \<in> fst ` set fs" by force
      with True notin show False by simp
    qed
    with e show ?thesis by simp
  next
    case False
    with Cons show ?thesis by auto
  qed
qed

lemma size_key_entry:
  "distinct (map fst fs) \<Longrightarrow> (k, v) \<in> set fs \<Longrightarrow> size_key fs k = int (st_size v)"
  by (simp add: size_key_def)

text \<open>
  C7. The claim says that the pass deletes all but exactly one file of every bucket that
  holds two or more. The loop ignores a deletion that raises (\<open>except Exception: pass\<close>)
  and reports the path as removed all the same. In a directory with the catalogs
  \<open>X_Catalog.pdf\<close> (500 bytes) and \<open>old_X_Catalog.pdf\<close> (3000 bytes), where deleting
  \<open>X_Catalog.pdf\<close> raises, the bucket of \<open>_Catalog.pdf\<close> holds both, the pass reports
  \<open>X_Catalog.pdf\<close> as removed, and both files are still in the directory afterwards.
\<close>

theorem dedup_undeletable_counterexample:
  "collect_by_suffix (map fst duplicate_listing)
     = [(''_Catalog.pdf'', [''X_Catalog.pdf'', ''old_X_Catalog.pdf'']),
        (''_Dimension.pdf'', [''X_Dimension.pdf''])] \<and>
   remove_duplicates [''X_Catalog.pdf''] (collect_by_suffix (map fst duplicate_listing))
       duplicate_listing
     = ([(''_Catalog.pdf'', [''X_Catalog.pdf''])],
        [(''X_Catalog.pdf'', pdf_file 500), (''X_Dimension.pdf'', pdf_file 1500),
         (''old_X_Catalog.pdf'', pdf_file 3000)])"
proof -
  have c: "collect_by_suffix [''X_Catalog.pdf'', ''X_Dimension.pdf'', ''old_X_Catalog.pdf'']
      = [(''_Catalog.pdf'', [''X_Catalog.pdf'', ''old_X_Catalog.pdf'']),
         (''_Dimension.pdf'', [''X_Dimension.pdf''])]"
    by (simp add: collect_by_suffix_def REQUIRED_def OPTIONAL_def endswith_def)
  show ?thesis
    by (simp add: c duplicate_listing_def size_key_def try_unlink_def unlink_def pdf_file_def)
qed

text \<open>
  C7, amended. For a directory whose names are distinct and a bucket of
  \<open>collect_by_suffix\<close>: when the bucket holds at least two files, \<open>remove_duplicates\<close>
  keeps one of them, no file of the bucket was larger than it, the files of the bucket
  left in the directory afterwards are the kept one and those whose deletion raised, and
  the files of the bucket other than the kept one are all reported as removed under the
  bucket's suffix, deleted or not; so when no deletion in the bucket raises, exactly the
  kept file is left. When the bucket holds at most one file, its file is left as it was
  and nothing is reported for the suffix.
\<close>

theorem dedup_keeps_largest:
  assumes "distinct (map fst fs)"
    and "(suffix, paths) \<in> set (collect_by_suffix (map fst fs))"
    and "remove_duplicates undeletable (collect_by_suffix (map fst fs)) fs = (removed, fs')"
  shows "(2 \<le> length paths \<longrightarrow>
           (\<exists>keep f. keep \<in> set paths \<and> (keep, f) \<in> set fs \<and>
              (\<forall>p\<in>set paths. \<exists>g. (p, g) \<in> set fs \<and> st_size g \<le> st_size f) \<and>
              filter (\<lambda>e. fst e \<in> set paths) fs'
                = filter (\<lambda>e. fst e \<in> set paths \<and> (fst e = keep \<or> fst e \<in> set undeletable)) fs \<and>
              (set paths \<inter> set undeletable = {} \<longrightarrow>
                 filter (\<lambda>e. fst e \<in> set paths) fs' = [(keep, f)]) \<and>
              (suffix, filter (\<lambda>p. p \<noteq> keep) paths) \<in> set removed)) \<and>
         (length paths \<le> 1 \<longrightarrow>
            filter (\<lambda>e. fst e \<in> set paths) fs' = filter (\<lambda>e. fst e \<in> set paths) fs \<and>
            suffix \<notin> fst ` set removed)"
proof (intro conjI impI)
  note inv = collect_by_suffix_invariant [OF assms(1)]
  from inv(3) assms(2) have names: "set paths \<subseteq> fst ` set fs" by force
  {
    assume len: "2 \<le> length paths"
    from remove_duplicates_big [OF assms(3) inv(2) assms(2) len]
    obtain keep where keep: "keep \<in> set paths"
      "filter (\<lambda>e. fst e \<in> set paths) fs'
         = filter (\<lambda>e. fst e \<in> set paths \<and> (fst e = keep \<or> fst e \<in> set undeletable)) fs"
      "\<forall>p\<in>set paths. size_key fs p \<le> size_key fs keep"
      "(suffix, filter (\<lambda>p. p \<noteq> keep) paths) \<in> set removed" by blast
    from keep(1) names obtain f where f: "(keep, f) \<in> set fs" by force
    from assms(1) f have one: "filter (\<lambda>e. fst e = keep) fs = [(keep, f)]"
      by (rule distinct_filter_key)
    have sizes: "\<exists>g. (p, g) \<in> set fs \<and> st_size g \<le> st_size f" if p: "p \<in> set paths" for p
    proof -
      from p names obtain g where g: "(p, g) \<in> set fs" by force
      from keep(3) p have "size_key fs p \<le> size_key fs keep" by blast
      with assms(1) f g have "st_size g \<le> st_size f" by (simp add: size_key_entry)
      with g show ?thesis by blast
    qed
    have alone: "filter (\<lambda>e. fst e \<in> set paths) fs' = [(keep, f)]"
      if d: "set paths \<inter> set undeletable = {}"
    proof -
      from d keep(1)
      have "filter (\<lambda>e. fst e \<in> set paths \<and> (fst e = keep \<or> fst e \<in> set undeletable)) fs
          = filter (\<lambda>e. fst e = keep) fs"
        by (intro filter_cong) auto
      with keep(2) one show ?thesis by simp
    qed
    from keep f sizes alone
    show "\<exists>keep f. keep \<in> set paths \<and> (keep, f) \<in> set fs \<and>
              (\<forall>p\<in>set paths. \<exists>g. (p, g) \<in> set fs \<and> st_size g \<le> st_size f) \<and>
              filter (\<lambda>e. fst e \<in> set paths) fs'
                = filter (\<lambda>e. fst e \<in> set paths \<and> (fst e = keep \<or> fst e \<in> set undeletable)) fs \<and>
              (set paths \<inter> set undeletable = {} \<longrightarrow>
                 filter (\<lambda>e. fst e \<in> set paths) fs' = [(keep, f)]) \<and>
              (suffix, filter (\<lambda>p. p \<noteq> keep) paths) \<in> set removed"
      by (intro exI [of _ keep] exI [of _ f]) blast
  }
  {
    assume len: "length paths \<le> 1"
    from remove_duplicates_small [OF assms(3) inv(2) assms(2) len]
    show "filter (\<lambda>e. fst e \<in> set paths) fs' = filter (\<lambda>e. fst e \<in> set paths) fs" .
    show "suffix \<notin> fst ` set removed"
    proof
      assume "suffix \<in> fst ` set removed"
      then obtain r where "(suffix, r) \<in> set removed" by force
      from remove_duplicates_keys [OF assms(3) this]
      obtain ps where ps: "(suffix, ps) \<in> set (collect_by_suffix (map fst fs))" "2 \<le> length ps"
        by blast
      from inv(1) ps(1) assms(2) have "ps = paths" by (rule eq_key_imp_eq_value)
      with ps(2) len show False by simp
    qed
  }
qed

theorem dedup_keeps_largest_witness:
  "distinct (map fst duplicate_listing) \<and>
   (''_Catalog.pdf'', [''X_Catalog.pdf'', ''old_X_Catalog.pdf''])
     \<in> set (collect_by_suffix (map fst duplicate_listing)) \<and>
   remove_duplicates [] (collect_by_suffix (map fst duplicate_listing)) duplicate_listing
     = ([(''_Catalog.pdf'', [''X_Catalog.pdf''])],
        [(''X_Dimension.pdf'', pdf_file 1500), (''old_X_Catalog.pdf'', pdf_file 3000)]) \<and>
   2 \<le> length [''X_Catalog.pdf'', ''old_X_Catalog.pdf''] \<and>
   set [''X_Catalog.pdf'', ''old_X_Catalog.pdf''] \<inter> set ([] :: string list) = {}"
proof -
  have c: "collect_by_suffix [''X_Catalog.pdf'', ''X_Dimension.pdf'', ''old_X_Catalog.pdf'']
      = [(''_Catalog.pdf'', [''X_Catalog.pdf'', ''old_X_Catalog.pdf'']),
         (''_Dimension.pdf'', [''X_Dimension.pdf''])]"
    by (simp add: collect_by_suffix_def REQUIRED_def OPTIONAL_def endswith_def)
  have h1: "distinct (map fst duplicate_listing)"
    by (simp add: duplicate_listing_def)
  have h2: "(''_Catalog.pdf'', [''X_Catalog.pdf'', ''old_X_Catalog.pdf''])
     \<in> set (collect_by_suffix (map fst duplicate_listing))"
    by (simp add: c duplicate_listing_def)
  have h3: "remove_duplicates [] (collect_by_suffix (map fst duplicate_listing)) duplicate_listing
     = ([(''_Catalog.pdf'', [''X_Catalog.pdf''])],
        [(''X_Dimension.pdf'', pdf_file 1500), (''old_X_Catalog.pdf'', pdf_file 3000)])"
    by (simp add: c duplicate_listing_def size_key_def try_unlink_def unlink_def pdf_file_def)
  from dedup_keeps_largest [OF h1 h2 h3] h1 h2 h3 show ?thesis by simp
qed

end
